theory Spec2Isabelle
  imports Main "HOL-Library.Sublist"
begin

section \<open>Go strings and the functions of package strings that main.go calls\<close>

text \<open>
  A Go string is a sequence of bytes; \<^typ>\<open>string\<close> is a list of 8-bit characters, so
  \<open>length\<close> is Go's \<open>len\<close> and \<open>s ! i\<close> is \<open>s[i]\<close> for \<open>i < len(s)\<close>. Text beyond
  ASCII is UTF-8: several bytes for one code point.

  The functions of the standard library that \<open>main.go\<close> calls are written here from their
  documented behaviour, under the names they have in package \<open>strings\<close>.
\<close>

type_synonym byte = char

definition byte_val :: "byte \<Rightarrow> nat" where
  "byte_val c = of_char c"

text \<open>\<open>strings.HasPrefix(s, prefix)\<close> and \<open>strings.HasSuffix(s, suffix)\<close>.\<close>

definition HasPrefix :: "string \<Rightarrow> string \<Rightarrow> bool" where
  "HasPrefix s pre = (take (length pre) s = pre)"

definition HasSuffix :: "string \<Rightarrow> string \<Rightarrow> bool" where
  "HasSuffix s suf = (length suf \<le> length s \<and> drop (length s - length suf) s = suf)"

text \<open>
  \<open>strings.Index(s, substr)\<close>: the index of the first occurrence of \<open>substr\<close> in \<open>s\<close>;
  Go's \<open>-1\<close> is \<open>None\<close>. \<open>strings.Contains(s, substr)\<close> is \<open>Index(s, substr) >= 0\<close>.
\<close>

fun Index :: "string \<Rightarrow> string \<Rightarrow> nat option" where
  "Index [] substr = (if substr = [] then Some 0 else None)"
| "Index (c # cs) substr =
     (if HasPrefix (c # cs) substr then Some 0 else map_option Suc (Index cs substr))"

definition Contains :: "string \<Rightarrow> string \<Rightarrow> bool" where
  "Contains s substr = (Index s substr \<noteq> None)"

lemma HasPrefix_length: "HasPrefix s pre \<Longrightarrow> length pre \<le> length s"
proof -
  assume "HasPrefix s pre"
  then have "length (take (length pre) s) = length pre"
    by (simp add: HasPrefix_def)
  then show ?thesis by simp
qed

lemma Index_bound: "Index s substr = Some m \<Longrightarrow> m + length substr \<le> length s"
proof (induction s arbitrary: m)
  case Nil
  then show ?case by (simp split: if_splits)
next
  case (Cons c cs)
  show ?case
  proof (cases "HasPrefix (c # cs) substr")
    case True
    then have "length substr \<le> length (c # cs)"
      by (rule HasPrefix_length)
    with True Cons.prems show ?thesis by simp
  next
    case False
    with Cons.prems obtain k where "Index cs substr = Some k" "m = Suc k"
      by auto
    with Cons.IH show ?thesis by fastforce
  qed
qed

text \<open>
  \<open>strings.Split(s, sep)\<close> cuts \<open>s\<close> at every occurrence of \<open>sep\<close>, found from the left
  one after the other (\<open>genSplit\<close>: \<open>m := Index(s, sep)\<close>, keep \<open>s[:m]\<close>, go on with
  \<open>s[m+len(sep):]\<close>); the last piece is what is left. The program passes the separators
  \<open>"-"\<close> and \<open>"\n"\<close>. For the empty separator, which the program never passes, Go splits
  after each UTF-8 sequence; the branch here splits after each byte, which is the same on
  ASCII text only.
\<close>

function Split :: "string \<Rightarrow> string \<Rightarrow> string list" where
  "Split s sep =
     (if sep = [] then map (\<lambda>c. [c]) s
      else (case Index s sep of
              None \<Rightarrow> [s]
            | Some m \<Rightarrow> take m s # Split (drop (m + length sep) s) sep))"
  by pat_completeness auto
termination
proof (relation "measure (\<lambda>(s, sep). length s)")
  show "wf (measure (\<lambda>(s, sep). length s))" by simp
next
  fix s sep :: string and m :: nat
  assume "sep \<noteq> []" and "Index s sep = Some m"
  then have "m + length sep \<le> length s" and "0 < length sep"
    by (auto dest: Index_bound)
  then have "length s - (m + length sep) < length s"
    by arith
  then show "((drop (m + length sep) s, sep), (s, sep)) \<in> measure (\<lambda>(s, sep). length s)"
    by simp
qed

declare Split.simps [simp del]

text \<open>\<open>strings.Join(elems, sep)\<close>.\<close>

fun Join :: "string list \<Rightarrow> string \<Rightarrow> string" where
  "Join [] sep = []"
| "Join [e] sep = e"
| "Join (e # f # es) sep = e @ sep @ Join (f # es) sep"

text \<open>
  \<open>strings.ReplaceAll(s, old, new)\<close> replaces the non-overlapping occurrences of \<open>old\<close>,
  found from the left, by \<open>new\<close>. The program passes the patterns \<open>"**::**"\<close>, \<open>"(../"\<close>
  and \<open>"/index.html)"\<close>. For the empty pattern, which the program never passes, Go puts
  \<open>new\<close> before the string and after each UTF-8 sequence; the branch here puts it after
  each byte, which is the same on ASCII text only.
\<close>

function ReplaceAll :: "string \<Rightarrow> string \<Rightarrow> string \<Rightarrow> string" where
  "ReplaceAll s old new =
     (if old = [] then new @ concat (map (\<lambda>c. c # new) s)
      else if s = [] then []
      else if HasPrefix s old then new @ ReplaceAll (drop (length old) s) old new
      else hd s # ReplaceAll (tl s) old new)"
  by pat_completeness auto
termination
  by (relation "measure (\<lambda>(s, old, new). length s)") auto

declare ReplaceAll.simps [simp del]

text \<open>
  \<open>strings.TrimSpace(s)\<close> removes leading and trailing white space as Unicode defines it
  (\<open>unicode.IsSpace\<close>): the ASCII bytes tab, line feed, vertical tab, form feed, carriage
  return and space, and the code points U+0085, U+00A0, U+1680, U+2000 to U+200A, U+2028,
  U+2029, U+202F, U+205F and U+3000, which stand in the string as their UTF-8 encodings.
  Go decodes one code point at a time, forwards from the start and backwards from the end
  (\<open>utf8.DecodeRuneInString\<close>, \<open>utf8.DecodeLastRuneInString\<close>); a string starts (ends) with a
  white-space code point exactly when it starts (ends) with one of these encodings.
\<close>

definition space_encodings :: "string list" where
  "space_encodings =
     [[CHR 0x09], [CHR 0x0A], [CHR 0x0B], [CHR 0x0C], [CHR 0x0D], [CHR 0x20],
      [CHR 0xC2, CHR 0x85], [CHR 0xC2, CHR 0xA0],
      [CHR 0xE1, CHR 0x9A, CHR 0x80],
      [CHR 0xE2, CHR 0x80, CHR 0x80], [CHR 0xE2, CHR 0x80, CHR 0x81],
      [CHR 0xE2, CHR 0x80, CHR 0x82], [CHR 0xE2, CHR 0x80, CHR 0x83],
      [CHR 0xE2, CHR 0x80, CHR 0x84], [CHR 0xE2, CHR 0x80, CHR 0x85],
      [CHR 0xE2, CHR 0x80, CHR 0x86], [CHR 0xE2, CHR 0x80, CHR 0x87],
      [CHR 0xE2, CHR 0x80, CHR 0x88], [CHR 0xE2, CHR 0x80, CHR 0x89],
      [CHR 0xE2, CHR 0x80, CHR 0x8A],
      [CHR 0xE2, CHR 0x80, CHR 0xA8], [CHR 0xE2, CHR 0x80, CHR 0xA9],
      [CHR 0xE2, CHR 0x80, CHR 0xAF], [CHR 0xE2, CHR 0x81, CHR 0x9F],
      [CHR 0xE3, CHR 0x80, CHR 0x80]]"

definition leading_space :: "string \<Rightarrow> nat" where
  "leading_space s = (case find (HasPrefix s) space_encodings of None \<Rightarrow> 0 | Some w \<Rightarrow> length w)"

definition trailing_space :: "string \<Rightarrow> nat" where
  "trailing_space s = (case find (HasSuffix s) space_encodings of None \<Rightarrow> 0 | Some w \<Rightarrow> length w)"

lemma leading_space_le: "leading_space s \<le> length s"
proof (cases "find (HasPrefix s) space_encodings")
  case None
  then show ?thesis by (simp add: leading_space_def)
next
  case (Some w)
  then have "HasPrefix s w" by (auto simp: find_Some_iff)
  then have "length w \<le> length s"
    by (rule HasPrefix_length)
  with Some show ?thesis by (simp add: leading_space_def)
qed

lemma trailing_space_le: "trailing_space s \<le> length s"
  by (auto simp: trailing_space_def HasSuffix_def find_Some_iff split: option.splits)

function TrimLeft :: "string \<Rightarrow> string" where
  "TrimLeft s = (if leading_space s = 0 then s else TrimLeft (drop (leading_space s) s))"
  by pat_completeness auto
termination
proof (relation "measure length")
  show "wf (measure length)" by simp
next
  fix s :: string
  assume "leading_space s \<noteq> 0"
  moreover have "leading_space s \<le> length s" by (rule leading_space_le)
  ultimately show "(drop (leading_space s) s, s) \<in> measure length" by simp
qed

function TrimRight :: "string \<Rightarrow> string" where
  "TrimRight s =
     (if trailing_space s = 0 then s else TrimRight (take (length s - trailing_space s) s))"
  by pat_completeness auto
termination
proof (relation "measure length")
  show "wf (measure length)" by simp
next
  fix s :: string
  assume "trailing_space s \<noteq> 0"
  moreover have "trailing_space s \<le> length s" by (rule trailing_space_le)
  ultimately show "(take (length s - trailing_space s) s, s) \<in> measure length" by simp
qed

declare TrimLeft.simps [simp del] TrimRight.simps [simp del]

definition TrimSpace :: "string \<Rightarrow> string" where
  "TrimSpace s = TrimRight (TrimLeft s)"

section \<open>Run-time panics\<close>

text \<open>
  Indexing a string outside its bounds and slicing it beyond its length panic in Go. The
  loops below read through \<open>byteAt\<close> and the slices go through \<open>slice_to\<close> and
  \<open>slice_from\<close>, so that a panic is a result of the model and "never fails" is a statement
  about it.
\<close>

datatype panic = IndexOutOfRange | SliceOutOfRange

definition byteAt :: "string \<Rightarrow> nat \<Rightarrow> panic + byte" where
  "byteAt s i = (if i < length s then Inr (s ! i) else Inl IndexOutOfRange)"

definition slice_to :: "string \<Rightarrow> nat \<Rightarrow> panic + string" where
  "slice_to s n = (if n \<le> length s then Inr (take n s) else Inl SliceOutOfRange)"

definition slice_from :: "string \<Rightarrow> nat \<Rightarrow> panic + string" where
  "slice_from s n = (if n \<le> length s then Inr (drop n s) else Inl SliceOutOfRange)"

section \<open>The brace-span pass of processHTMLFile (main.go, lines 236 to 251)\<close>

text \<open>
  The inner loop: \<open>j := i; for j < len(mdText) && mdText[j] != '}' { j++ }\<close>.
  The \<open>&&\<close> reads \<open>mdText[j]\<close> only when \<open>j < len(mdText)\<close>.
\<close>

function findClose :: "string \<Rightarrow> nat \<Rightarrow> panic + nat" where
  "findClose mdText j =
     (if j < length mdText then
        (case byteAt mdText j of
           Inl e \<Rightarrow> Inl e
         | Inr c \<Rightarrow> if c \<noteq> CHR ''}'' then findClose mdText (Suc j) else Inr j)
      else Inr j)"
  by pat_completeness auto
termination
  by (relation "measure (\<lambda>(mdText, j). length mdText - j)") auto

declare findClose.simps [simp del]

lemma findClose_ge: "findClose mdText j = Inr k \<Longrightarrow> j \<le> k"
proof (induction mdText j rule: findClose.induct)
  case (1 mdText j)
  show ?case
  proof (cases "j < length mdText \<and> mdText ! j \<noteq> CHR ''}''")
    case True
    with "1.prems" have "findClose mdText (Suc j) = Inr k"
      by (simp add: byteAt_def findClose.simps [of mdText j])
    with True "1.IH" [of "mdText ! j"] have "Suc j \<le> k"
      by (simp add: byteAt_def)
    then show ?thesis by simp
  next
    case False
    with "1.prems" show ?thesis
      by (auto simp: byteAt_def findClose.simps [of mdText j] split: if_splits)
  qed
qed

text \<open>
  The outer loop, \<open>for i := 0; i < len(mdText); i++\<close>, with the builder \<open>result\<close> as the
  state it appends to. At a \<open>{\<close> the inner loop runs from \<open>i\<close>; when it stops inside the
  text (\<open>j < len(mdText)\<close>: a \<open>}\<close> was found) the code sets \<open>i = j\<close> and continues, so the
  next index is \<open>j + 1\<close> and nothing is written. Otherwise, and at every other byte,
  \<open>result.WriteByte(mdText[i])\<close>.
\<close>

function stripLoop :: "string \<Rightarrow> nat \<Rightarrow> string \<Rightarrow> panic + string" where
  "stripLoop mdText i result =
     (if i < length mdText then
        (case byteAt mdText i of
           Inl e \<Rightarrow> Inl e
         | Inr c \<Rightarrow>
             if c = CHR ''{'' then
               (case findClose mdText i of
                  Inl e \<Rightarrow> Inl e
                | Inr j \<Rightarrow>
                    if j < length mdText then stripLoop mdText (Suc j) result
                    else (case byteAt mdText i of
                            Inl e \<Rightarrow> Inl e
                          | Inr b \<Rightarrow> stripLoop mdText (Suc i) (result @ [b])))
             else (case byteAt mdText i of
                     Inl e \<Rightarrow> Inl e
                   | Inr b \<Rightarrow> stripLoop mdText (Suc i) (result @ [b])))
      else Inr result)"
  by pat_completeness auto
termination
proof (relation "measure (\<lambda>(mdText, i, result). length mdText - i)")
  show "wf (measure (\<lambda>(mdText, i, result). length mdText - i))" by simp
next
  fix mdText :: string and i j :: nat and result :: string and c :: byte
  assume "i < length mdText" and "findClose mdText i = Inr j" and "j < length mdText"
  then have "i \<le> j" by (simp only: findClose_ge)
  with \<open>j < length mdText\<close> have "length mdText - Suc j < length mdText - i" by arith
  then show "((mdText, Suc j, result), (mdText, i, result))
      \<in> measure (\<lambda>(mdText, i, result). length mdText - i)"
    by simp
qed auto

declare stripLoop.simps [simp del]

definition stripBraces :: "string \<Rightarrow> panic + string" where
  "stripBraces mdText = stripLoop mdText 0 []"

section \<open>Title derivation: formatDirName (main.go, lines 104 to 114)\<close>

text \<open>
  \<open>strings.ToUpper(s)\<close>. On ASCII bytes it maps \<open>a\<close> to \<open>z\<close> to \<open>A\<close> to \<open>Z\<close> and leaves every
  other byte. When \<open>s\<close> has a byte of \<open>0x80\<close> or more, Go leaves this fast path and calls
  \<open>strings.Map(unicode.ToUpper, s)\<close>, which decodes \<open>s\<close> as UTF-8: a byte that starts no
  valid sequence is read as \<open>utf8.RuneError\<close> (U+FFFD), one byte wide, and \<open>Map\<close> writes the
  encoding of U+FFFD, the bytes \<open>EF BF BD\<close>, in its place. \<open>formatDirName\<close> calls
  \<open>ToUpper\<close> on \<open>word[:1]\<close> only, a string of one byte, and a single byte of \<open>0x80\<close> or more
  is never valid UTF-8. The definition is exact on every string whose bytes of \<open>0x80\<close> or
  more form no valid UTF-8 sequence, so on every one-byte string; upper-casing a valid
  multi-byte sequence needs Unicode's case tables and is outside what the program calls.
\<close>

definition upper_ascii :: "byte \<Rightarrow> byte" where
  "upper_ascii c =
     (if 97 \<le> byte_val c \<and> byte_val c \<le> 122 then char_of (byte_val c - 32) else c)"

definition RuneError_utf8 :: string where
  "RuneError_utf8 = [CHR 0xEF, CHR 0xBF, CHR 0xBD]"

definition ToUpper :: "string \<Rightarrow> string" where
  "ToUpper s = concat (map (\<lambda>c. if byte_val c < 128 then [upper_ascii c] else RuneError_utf8) s)"

text \<open>
  The loop \<open>for i, word := range words\<close>: where \<open>len(word) > 0\<close>, the element is replaced
  by \<open>strings.ToUpper(word[:1]) + word[1:]\<close>. Element \<open>i\<close> is read and written at step \<open>i\<close>
  only.
\<close>

function capitalizeLoop :: "string list \<Rightarrow> nat \<Rightarrow> panic + string list" where
  "capitalizeLoop words i =
     (if i < length words then
        (let word = words ! i in
         if length word > 0 then
           (case slice_to word 1 of
              Inl e \<Rightarrow> Inl e
            | Inr first \<Rightarrow>
                (case slice_from word 1 of
                   Inl e \<Rightarrow> Inl e
                 | Inr rest \<Rightarrow> capitalizeLoop (words[i := ToUpper first @ rest]) (Suc i)))
         else capitalizeLoop words (Suc i))
      else Inr words)"
  by pat_completeness auto
termination
  by (relation "measure (\<lambda>(words, i). length words - i)") auto

declare capitalizeLoop.simps [simp del]

definition formatDirName :: "string \<Rightarrow> panic + string" where
  "formatDirName name =
     (case capitalizeLoop (Split name ''-'') 0 of
        Inl e \<Rightarrow> Inl e
      | Inr words \<Rightarrow> Inr (Join words '' ''))"

section \<open>The parsed document (golang.org/x/net/html)\<close>

text \<open>
  \<open>html.Node\<close>: the node's type, its data (the tag name of an element, the text of a text
  node), its attributes in the order parsed, and its children from \<open>FirstChild\<close> along
  \<open>NextSibling\<close>. A node is owned by its parent, so the tree is a value.
\<close>

datatype NodeType =
  ErrorNode | TextNode | DocumentNode | ElementNode | CommentNode | DoctypeNode | RawNode

record Attribute =
  Namespace :: string
  Key :: string
  Val :: string

datatype Node = Node (Type: NodeType) (Data: string) (Attr: "Attribute list") (Children: "Node list")

section \<open>The element classifier (main.go, lines 16 to 76)\<close>

text \<open>
  \<open>hasNoAttributes\<close>: two nested loops; the first attribute whose key is one of
  \<open>excludeAttrs\<close> returns \<open>false\<close>.
\<close>

fun keyExcluded :: "Attribute \<Rightarrow> string list \<Rightarrow> bool" where
  "keyExcluded attr [] = False"
| "keyExcluded attr (excludeAttr # rest) =
     (if Key attr = excludeAttr then True else keyExcluded attr rest)"

fun hasNoAttributesLoop :: "Attribute list \<Rightarrow> string list \<Rightarrow> bool" where
  "hasNoAttributesLoop [] excludeAttrs = True"
| "hasNoAttributesLoop (attr # attrs) excludeAttrs =
     (if keyExcluded attr excludeAttrs then False else hasNoAttributesLoop attrs excludeAttrs)"

definition hasNoAttributes :: "Node \<Rightarrow> string list \<Rightarrow> bool" where
  "hasNoAttributes n excludeAttrs = hasNoAttributesLoop (Attr n) excludeAttrs"

text \<open>
  \<open>getTextContent\<close>: \<open>text\<close> starts as the node's data when the node is a text node and
  as the empty string otherwise; the loop over the children appends \<open>getTextContent(c)\<close>
  for each child; the function returns \<open>strings.TrimSpace(text)\<close>. The call for a child
  is this same function, so what a child contributes has been trimmed already.
\<close>

fun getTextContent :: "Node \<Rightarrow> string"
  and getTextContentChildren :: "Node list \<Rightarrow> string \<Rightarrow> string" where
  "getTextContent (Node t d a cs) =
     TrimSpace (getTextContentChildren cs (if t = TextNode then d else []))"
| "getTextContentChildren [] text = text"
| "getTextContentChildren (c # cs) text = getTextContentChildren cs (text @ getTextContent c)"

text \<open>The loop of the \<open>div\<close> case: some attribute has key \<open>class\<close> and value \<open>photogimg\<close>.\<close>

fun hasPhotogimgClass :: "Attribute list \<Rightarrow> bool" where
  "hasPhotogimgClass [] = False"
| "hasPhotogimgClass (attr # attrs) =
     (if Key attr = ''class'' \<and> Val attr = ''photogimg'' then True else hasPhotogimgClass attrs)"

text \<open>\<open>isTargetElement\<close>: the type test, then the \<open>switch\<close> on \<open>n.Data\<close>.\<close>

definition isTargetElement :: "Node \<Rightarrow> bool" where
  "isTargetElement n =
     (if Type n \<noteq> ElementNode then False
      else if Data n = ''ul'' then hasNoAttributes n [''id'', ''style'']
      else if Data n = ''p'' then
        (if \<not> hasNoAttributes n [''class'', ''style''] then False
         else \<not> Contains (getTextContent n) ''Copyright'')
      else if Data n = ''h3'' then
        (if \<not> hasNoAttributes n [''class'', ''id''] then False
         else \<not> Contains (getTextContent n) ''District Map'')
      else if Data n = ''h1'' \<or> Data n = ''h2'' then hasNoAttributes n [''class'', ''id'']
      else if Data n = ''div'' then hasPhotogimgClass (Attr n)
      else False)"

section \<open>The tree extractor (main.go, lines 78 to 102)\<close>

text \<open>
  \<open>extractContent\<close>: the closure \<open>f\<close> appends to the captured slice \<open>extracted\<close>, which is
  passed and returned here. At a node the classifier accepts, \<open>f\<close> appends
  \<open>renderNode(n)\<close> and returns; at any other node it calls itself on each child in
  order. \<open>renderNode\<close> is \<open>html.Render\<close> into a buffer, a function of the node and its
  subtree; it is a parameter here, and the type of a fragment is left open.
\<close>

fun extract_f :: "(Node \<Rightarrow> 'a) \<Rightarrow> Node \<Rightarrow> 'a list \<Rightarrow> 'a list"
  and extract_children :: "(Node \<Rightarrow> 'a) \<Rightarrow> Node list \<Rightarrow> 'a list \<Rightarrow> 'a list" where
  "extract_f renderNode (Node t d a cs) extracted =
     (if isTargetElement (Node t d a cs) then extracted @ [renderNode (Node t d a cs)]
      else extract_children renderNode cs extracted)"
| "extract_children renderNode [] extracted = extracted"
| "extract_children renderNode (c # cs) extracted =
     extract_children renderNode cs (extract_f renderNode c extracted)"

definition extractContent :: "(Node \<Rightarrow> 'a) \<Rightarrow> Node \<Rightarrow> 'a list" where
  "extractContent renderNode doc = extract_f renderNode doc []"

section \<open>Post-processing of the converted text (main.go, lines 218 to 251)\<close>

text \<open>
  The two link rewrites of a surviving line, in the order of the source:
  \<open>line = strings.ReplaceAll(line, "(../", "(")\<close>, then
  \<open>line = strings.ReplaceAll(line, "/index.html)", ")")\<close>.
\<close>

definition rewriteLinks :: "string \<Rightarrow> string" where
  "rewriteLinks line = ReplaceAll (ReplaceAll line ''(../'' ''('') ''/index.html)'' '')''"

text \<open>
  The loop over \<open>lines\<close>: a line whose trimmed content starts with \<open>:::\<close> is skipped
  (\<open>continue\<close>); any other line is rewritten and appended to \<open>filteredLines\<close>.
\<close>

fun filterLines :: "string list \<Rightarrow> string list \<Rightarrow> string list" where
  "filterLines [] filteredLines = filteredLines"
| "filterLines (line # lines) filteredLines =
     (if HasPrefix (TrimSpace line) '':::'' then filterLines lines filteredLines
      else filterLines lines (filteredLines @ [rewriteLinks line]))"

definition newline :: string where
  "newline = [CHR 0x0A]"

definition directiveLinePass :: "string \<Rightarrow> string" where
  "directiveLinePass mdText = Join (filterLines (Split mdText newline) []) newline"

text \<open>
  The metadata block written to the builder \<open>result\<close> (lines 206 to 216). \<open>date\<close> is
  \<open>time.Now().Format("2006-01-02")\<close>, a parameter here.
\<close>

definition quote :: string where
  "quote = [CHR 0x22]"

definition frontMatter :: "string \<Rightarrow> string \<Rightarrow> string \<Rightarrow> string \<Rightarrow> string" where
  "frontMatter title date category tag =
     ''---'' @ newline @
     ''title: '' @ quote @ title @ quote @ newline @
     ''description: '' @ quote @ title @ quote @ newline @
     ''meta_title: '' @ quote @ title @ quote @ newline @
     ''author: '' @ quote @ quote @ newline @
     ''date: '' @ date @ newline @
     ''categories: ['' @ quote @ category @ quote @ '']'' @ newline @
     ''image: '' @ quote @ quote @ newline @
     ''tags: ['' @ quote @ tag @ quote @ '']'' @ newline @
     ''draft: '' @ ''false'' @ newline @
     ''---'' @ newline @ newline"

text \<open>
  The content of the output file, from the base name, the date, the category, the tag and
  the content of the converted file (lines 201 to 251): the title is derived, the metadata
  block is written to \<open>result\<close>, the text goes through marker removal and the
  directive-line pass, and the brace loop writes into the same builder \<open>result\<close>.
\<close>

definition processedDocument ::
    "string \<Rightarrow> string \<Rightarrow> string \<Rightarrow> string \<Rightarrow> string \<Rightarrow> panic + string" where
  "processedDocument fileNameWithoutExt date category tag mdContent =
     (case formatDirName fileNameWithoutExt of
        Inl e \<Rightarrow> Inl e
      | Inr title \<Rightarrow>
          (let result = frontMatter title date category tag;
               mdText = ReplaceAll mdContent ''**::**'' [];
               mdText = directiveLinePass mdText
           in stripLoop mdText 0 result))"

section \<open>Definitions for the proofs\<close>

subsection \<open>The brace-span pass as a function of the text\<close>

text \<open>
  What the two loops compute, written by recursion on the text that is left: at a \<open>{\<close>,
  the text up to and with the first \<open>}\<close> after it is dropped when there is one, and the
  \<open>{\<close> is kept when there is none; every other byte is kept. \<open>stripLoop_strip_spans\<close>
  proves that the loops compute it, for every text and every content of the builder.
\<close>

function strip_spans :: "string \<Rightarrow> string" where
  "strip_spans [] = []"
| "strip_spans (c # cs) =
     (if c = CHR ''{'' then
        (case dropWhile (\<lambda>x. x \<noteq> CHR ''}'') cs of
           [] \<Rightarrow> c # strip_spans cs
         | close # rest \<Rightarrow> strip_spans rest)
      else c # strip_spans cs)"
  by pat_completeness auto
termination
proof (relation "measure length")
  show "wf (measure length)" by simp
next
  fix c :: char and cs :: string and close :: char and rest :: string
  assume "dropWhile (\<lambda>x. x \<noteq> CHR ''}'') cs = close # rest"
  then have "length (close # rest) \<le> length cs"
    by (metis length_dropWhile_le)
  then show "(rest, c # cs) \<in> measure length" by simp
qed auto

subsection \<open>Splitting at a one-byte separator\<close>

text \<open>
  Both separators the program passes are one byte long. \<open>split_on c s\<close> cuts \<open>s\<close> at every
  byte \<open>c\<close>, by recursion on \<open>s\<close>; \<open>Split_single\<close> proves that \<open>Split s [c]\<close> computes it.
\<close>

fun split_on :: "byte \<Rightarrow> string \<Rightarrow> string list" where
  "split_on c [] = [[]]"
| "split_on c (x # xs) =
     (if x = c then [] # split_on c xs
      else (case split_on c xs of [] \<Rightarrow> [[x]] | w # ws \<Rightarrow> (x # w) # ws))"

subsection \<open>What the loop of formatDirName computes\<close>

text \<open>
  \<open>capitalize\<close> is the body of the loop on one segment; \<open>capitalizeLoop_map\<close> proves that
  the loop applies it to every segment and never panics, and \<open>formatDirName_Join\<close> that
  \<open>formatDirName\<close> always returns the capitalised segments joined by one space.
\<close>

definition capitalize :: "string \<Rightarrow> string" where
  "capitalize word = (if word = [] then [] else ToUpper (take 1 word) @ drop 1 word)"

subsection \<open>Flattened text as the specification words it\<close>

text \<open>
  Written from the specification's words, to be compared with \<open>getTextContent\<close>: the
  concatenation of all text-node data in the node's subtree in document order
  (\<open>text_data\<close>), with leading and trailing white space trimmed once, at the end.
\<close>

fun text_data :: "Node \<Rightarrow> string"
  and text_data_children :: "Node list \<Rightarrow> string" where
  "text_data (Node t d a cs) = (if t = TextNode then d else []) @ text_data_children cs"
| "text_data_children [] = []"
| "text_data_children (c # cs) = text_data c @ text_data_children cs"

definition flattened_text_spec :: "Node \<Rightarrow> string" where
  "flattened_text_spec n = TrimSpace (text_data n)"

text \<open>The paragraph \<open><p>Copy <b>right</b></p>\<close> as the parser builds it.\<close>

definition paragraph_copy_right :: Node where
  "paragraph_copy_right =
     Node ElementNode ''p'' []
       [Node TextNode ''Copy '' [] [],
        Node ElementNode ''b'' [] [Node TextNode ''right'' [] []]]"

text \<open>The heading \<open><h3>Tokyo District <a href="map.html">Map</a></h3>\<close>.\<close>

definition heading_district_map :: Node where
  "heading_district_map =
     Node ElementNode ''h3'' []
       [Node TextNode ''Tokyo District '' [] [],
        Node ElementNode ''a'' [\<lparr>Namespace = [], Key = ''href'', Val = ''map.html''\<rparr>]
          [Node TextNode ''Map'' [] []]]"

subsection \<open>The classifier as the specification words it\<close>

text \<open>
  Written from the specification's words, to be compared with \<open>isTargetElement\<close>: a node
  is kept exactly when it is an element and it is a \<open>ul\<close> with no attribute keyed \<open>id\<close> or
  \<open>style\<close>; or a \<open>p\<close> with no attribute keyed \<open>class\<close> or \<open>style\<close> whose flattened text
  does not contain \<open>"Copyright"\<close>; or an \<open>h3\<close> with no attribute keyed \<open>class\<close> or \<open>id\<close>
  whose flattened text does not contain \<open>"District Map"\<close>; or an \<open>h1\<close> or \<open>h2\<close> with no
  attribute keyed \<open>class\<close> or \<open>id\<close>; or a \<open>div\<close> with some attribute of key \<open>class\<close> and
  value \<open>photogimg\<close>. The flattened text is the specification's, \<open>flattened_text_spec\<close>.
\<close>

definition no_attribute_keyed :: "Node \<Rightarrow> string \<Rightarrow> string \<Rightarrow> bool" where
  "no_attribute_keyed n k1 k2 = list_all (\<lambda>a. Key a \<noteq> k1 \<and> Key a \<noteq> k2) (Attr n)"

definition classifier_spec :: "Node \<Rightarrow> bool" where
  "classifier_spec n =
     (Type n = ElementNode \<and>
      (Data n = ''ul'' \<and> no_attribute_keyed n ''id'' ''style'' \<or>
       Data n = ''p'' \<and> no_attribute_keyed n ''class'' ''style'' \<and>
         \<not> Contains (flattened_text_spec n) ''Copyright'' \<or>
       Data n = ''h3'' \<and> no_attribute_keyed n ''class'' ''id'' \<and>
         \<not> Contains (flattened_text_spec n) ''District Map'' \<or>
       (Data n = ''h1'' \<or> Data n = ''h2'') \<and> no_attribute_keyed n ''class'' ''id'' \<or>
       Data n = ''div'' \<and>
         list_ex (\<lambda>a. Key a = ''class'' \<and> Val a = ''photogimg'') (Attr n)))"

subsection \<open>Positions in the tree and what the extractor emits where\<close>

text \<open>
  A node of the document is named by its path from the root: the indices of the children
  taken on the way down. \<open>node_at\<close> follows a path; a strict prefix of a path names a
  proper ancestor; \<open>doc_before\<close> is document order (depth-first pre-order: an ancestor
  before its descendants, an earlier sibling's subtree before a later sibling's).
  \<open>emitted_at\<close> is \<open>extract_f\<close> with the position of each node carried along: it
  returns the emitted nodes with their paths. \<open>extract_emitted\<close> proves that the
  fragments of \<open>extract_f\<close> are the renderings of these nodes, in this order.
\<close>

fun node_at :: "Node \<Rightarrow> nat list \<Rightarrow> Node option" where
  "node_at n [] = Some n"
| "node_at n (i # path) =
     (if i < length (Children n) then node_at (Children n ! i) path else None)"

fun doc_before :: "nat list \<Rightarrow> nat list \<Rightarrow> bool" where
  "doc_before [] [] = False"
| "doc_before [] (j # q) = True"
| "doc_before (i # p) [] = False"
| "doc_before (i # p) (j # q) = (i < j \<or> (i = j \<and> doc_before p q))"

fun emitted_at :: "Node \<Rightarrow> nat list \<Rightarrow> (nat list \<times> Node) list"
  and emitted_children :: "Node list \<Rightarrow> nat list \<Rightarrow> nat \<Rightarrow> (nat list \<times> Node) list" where
  "emitted_at (Node t d a cs) path =
     (if isTargetElement (Node t d a cs) then [(path, Node t d a cs)]
      else emitted_children cs path 0)"
| "emitted_children [] path i = []"
| "emitted_children (c # cs) path i =
     emitted_at c (path @ [i]) @ emitted_children cs path (Suc i)"

definition emitted :: "Node \<Rightarrow> (nat list \<times> Node) list" where
  "emitted doc = emitted_at doc []"

text \<open>
  A small document: \<open>html\<close> with an empty \<open>head\<close> and a \<open>body\<close> that holds a \<open>div\<close> of
  class \<open>photogimg\<close> around an \<open>h2\<close>, then \<open><h1>Title</h1>\<close>, then
  \<open><p class="x">ignored</p>\<close>.
\<close>

definition example_document :: Node where
  "example_document =
     Node DocumentNode [] []
       [Node ElementNode ''html'' []
          [Node ElementNode ''head'' [] [],
           Node ElementNode ''body'' []
             [Node ElementNode ''div'' [\<lparr>Namespace = [], Key = ''class'', Val = ''photogimg''\<rparr>]
                [Node ElementNode ''h2'' [] [Node TextNode ''Caption'' [] []]],
              Node ElementNode ''h1'' [] [Node TextNode ''Title'' [] []],
              Node ElementNode ''p'' [\<lparr>Namespace = [], Key = ''class'', Val = ''x''\<rparr>]
                [Node TextNode ''ignored'' [] []]]]]"

subsection \<open>The two link rewrites in the opposite order\<close>

text \<open>
  Written from the words of the specification's remark on the order of the two rewrites,
  to be compared with \<open>rewriteLinks\<close>: \<open>/index.html)\<close> first, then \<open>(../\<close>.
\<close>

definition rewriteLinks_swapped :: "string \<Rightarrow> string" where
  "rewriteLinks_swapped line = ReplaceAll (ReplaceAll line ''/index.html)'' '')'') ''(../'' ''(''"

section \<open>Lemmas\<close>

subsection \<open>The brace-span pass\<close>

lemma findClose_takeWhile:
  "j \<le> length s \<Longrightarrow>
   findClose s j = Inr (j + length (takeWhile (\<lambda>x. x \<noteq> CHR ''}'') (drop j s)))"
proof (induction s j rule: findClose.induct)
  case (1 s j)
  show ?case
  proof (cases "j < length s")
    case False
    then have "findClose s j = Inr j" by (subst findClose.simps) simp
    with False "1.prems" show ?thesis by simp
  next
    case True
    then have d: "drop j s = s ! j # drop (Suc j) s"
      by (simp add: Cons_nth_drop_Suc)
    show ?thesis
    proof (cases "s ! j = CHR ''}''")
      case True
      with \<open>j < length s\<close> d show ?thesis
        by (simp add: findClose.simps [of s j] byteAt_def)
    next
      case False
      with \<open>j < length s\<close> "1.IH" [of "s ! j"] have
        "findClose s (Suc j) = Inr (Suc j + length (takeWhile (\<lambda>x. x \<noteq> CHR ''}'') (drop (Suc j) s)))"
        by (simp add: byteAt_def)
      with False \<open>j < length s\<close> d show ?thesis
        by (simp add: findClose.simps [of s j] byteAt_def)
    qed
  qed
qed

lemma stripLoop_strip_spans:
  "i \<le> length s \<Longrightarrow> stripLoop s i result = Inr (result @ strip_spans (drop i s))"
proof (induction s i result rule: stripLoop.induct)
  case (1 s i result)
  show ?case
  proof (cases "i < length s")
    case False
    then have "stripLoop s i result = Inr result" by (subst stripLoop.simps) simp
    with False "1.prems" show ?thesis by simp
  next
    case True
    then have d: "drop i s = s ! i # drop (Suc i) s"
      by (simp add: Cons_nth_drop_Suc)
    have b: "byteAt s i = Inr (s ! i)" using True by (simp add: byteAt_def)
    show ?thesis
    proof (cases "s ! i = CHR ''{''")
      case False
      with True b "1.IH"(3) [of "s ! i" "s ! i"] have
        "stripLoop s (Suc i) (result @ [s ! i]) = Inr ((result @ [s ! i]) @ strip_spans (drop (Suc i) s))"
        by simp
      with False True b d show ?thesis
        by (simp add: stripLoop.simps [of s i])
    next
      case brace: True
      let ?p = "\<lambda>x. x \<noteq> CHR ''}''"
      let ?tl = "drop (Suc i) s"
      let ?j = "i + length (takeWhile ?p (drop i s))"
      have fc: "findClose s i = Inr ?j"
        using True by (simp add: findClose_takeWhile)
      have tw: "takeWhile ?p (drop i s) = s ! i # takeWhile ?p ?tl"
        using d brace by simp
      have j: "?j = Suc i + length (takeWhile ?p ?tl)"
        using tw by simp
      show ?thesis
      proof (cases "dropWhile ?p ?tl")
        case Nil
        then have "takeWhile ?p ?tl = ?tl"
          by (metis append_Nil2 takeWhile_dropWhile_id)
        then have "length (takeWhile ?p ?tl) = length ?tl" by (simp only:)
        then have "length (takeWhile ?p ?tl) = length s - Suc i" by (simp only: length_drop)
        with j True have jl: "\<not> ?j < length s" by simp
        with True b brace fc "1.IH"(2) [of "s ! i" ?j "s ! i"] have
          "stripLoop s (Suc i) (result @ [s ! i]) = Inr ((result @ [s ! i]) @ strip_spans ?tl)"
          by simp
        moreover have "strip_spans (drop i s) = s ! i # strip_spans ?tl"
          unfolding d by (simp add: brace Nil)
        moreover have "stripLoop s i result = stripLoop s (Suc i) (result @ [s ! i])"
          using True b brace fc jl by (subst stripLoop.simps) simp
        ultimately show ?thesis by simp
      next
        case (Cons close rest)
        have len: "length (takeWhile ?p ?tl) + length (dropWhile ?p ?tl) = length ?tl"
          by (metis length_append takeWhile_dropWhile_id)
        with Cons j True have jl: "?j < length s" by simp
        have "drop (length (takeWhile ?p ?tl)) ?tl = dropWhile ?p ?tl"
          by (metis append_eq_conv_conj takeWhile_dropWhile_id)
        then have "drop ?j s = close # rest"
          using j Cons by (simp add: add.commute)
        then have r: "drop (Suc ?j) s = rest"
          by (metis drop_Suc list.sel(3) tl_drop)
        from True b brace fc jl "1.IH"(1) [of "s ! i" ?j] have
          "stripLoop s (Suc ?j) result = Inr (result @ strip_spans (drop (Suc ?j) s))"
          by simp
        moreover have "strip_spans (drop i s) = strip_spans rest"
          unfolding d by (simp add: brace Cons)
        moreover have "stripLoop s i result = stripLoop s (Suc ?j) result"
          using True b brace fc jl by (subst stripLoop.simps) simp
        ultimately show ?thesis using r by simp
      qed
    qed
  qed
qed

lemma strip_spans_no_open: "CHR ''{'' \<notin> set s \<Longrightarrow> strip_spans s = s"
  by (induction s) auto

lemma strip_spans_copy: "CHR ''{'' \<notin> set pre \<Longrightarrow> strip_spans (pre @ s) = pre @ strip_spans s"
  by (induction pre) auto

lemma strip_spans_span:
  "CHR ''}'' \<notin> set mid \<Longrightarrow> strip_spans (CHR ''{'' # mid @ CHR ''}'' # rest) = strip_spans rest"
proof -
  assume "CHR ''}'' \<notin> set mid"
  then have "dropWhile (\<lambda>x. x \<noteq> CHR ''}'') (mid @ CHR ''}'' # rest) = CHR ''}'' # rest"
    by (auto simp: dropWhile_append3)
  then show ?thesis by simp
qed

lemma strip_spans_no_close: "CHR ''}'' \<notin> set s \<Longrightarrow> strip_spans s = s"
proof (induction s)
  case Nil
  then show ?case by simp
next
  case (Cons c cs)
  then have dw: "dropWhile (\<lambda>x. x \<noteq> CHR ''}'') cs = []" by auto
  from Cons have "strip_spans cs = cs" by simp
  then show ?case by (simp add: dw)
qed

lemma strip_spans_unterminated:
  "CHR ''}'' \<notin> set rest \<Longrightarrow> strip_spans (pre @ rest) = strip_spans pre @ rest"
proof (induction pre rule: strip_spans.induct)
  case 1
  then show ?case by (simp add: strip_spans_no_close)
next
  case (2 c cs)
  let ?p = "\<lambda>x. x \<noteq> CHR ''}''"
  show ?case
  proof (cases "c = CHR ''{''")
    case False
    with 2 show ?thesis by simp
  next
    case True
    show ?thesis
    proof (cases "dropWhile ?p cs")
      case Nil
      then have "\<forall>x \<in> set cs. ?p x" by simp
      with "2.prems" have dw: "dropWhile ?p (cs @ rest) = []" by auto
      have "strip_spans ((c # cs) @ rest) = c # strip_spans (cs @ rest)"
        by (simp add: True dw)
      moreover have "strip_spans (c # cs) = c # strip_spans cs"
        by (simp add: True Nil)
      moreover have "strip_spans (cs @ rest) = strip_spans cs @ rest"
        using True Nil "2.prems" by (rule "2.IH"(1))
      ultimately show ?thesis by simp
    next
      case (Cons close r)
      then have "dropWhile ?p cs \<noteq> []" by simp
      then have "\<not> (\<forall>x \<in> set cs. ?p x)"
        using dropWhile_eq_Nil_conv [of ?p cs] by blast
      then have "dropWhile ?p (cs @ rest) = dropWhile ?p cs @ rest"
        using dropWhile_append [of ?p cs rest] by presburger
      then have dw: "dropWhile ?p (cs @ rest) = close # r @ rest"
        by (simp add: Cons)
      have "strip_spans ((c # cs) @ rest) = strip_spans (r @ rest)"
        by (simp add: True dw)
      moreover have "strip_spans (c # cs) = strip_spans r"
        by (simp add: True Cons)
      moreover have "strip_spans (r @ rest) = strip_spans r @ rest"
        using True Cons "2.prems" by (rule "2.IH"(2))
      ultimately show ?thesis by simp
    qed
  qed
qed

subsection \<open>Split, Join and title derivation\<close>

lemma split_on_nonempty: "split_on c s \<noteq> []"
  by (induction s) (auto split: list.splits)

lemma Split_single: "Split s [c] = split_on c s"
proof (induction s rule: length_induct)
  case (1 s)
  show ?case
  proof (cases s)
    case Nil
    then show ?thesis by (subst Split.simps) simp
  next
    case (Cons x xs)
    show ?thesis
    proof (cases "x = c")
      case True
      then have "Index s [c] = Some 0" by (simp add: Cons HasPrefix_def)
      then have "Split s [c] = [] # Split xs [c]"
        by (subst Split.simps) (simp add: Cons)
      moreover have "Split xs [c] = split_on c xs" using 1 Cons by simp
      ultimately show ?thesis using True Cons by simp
    next
      case False
      have ih: "Split xs [c] = split_on c xs" using 1 Cons by simp
      show ?thesis
      proof (cases "Index xs [c]")
        case None
        then have "Index s [c] = None" using False by (simp add: Cons HasPrefix_def)
        then have "Split s [c] = [s]" by (subst Split.simps) simp
        moreover have "Split xs [c] = [xs]" using None by (subst Split.simps) simp
        ultimately show ?thesis using False Cons ih by simp
      next
        case (Some m)
        then have "Index s [c] = Some (Suc m)" using False by (simp add: Cons HasPrefix_def)
        then have "Split s [c] = (x # take m xs) # Split (drop (Suc m) xs) [c]"
          by (subst Split.simps) (simp add: Cons)
        moreover have "Split xs [c] = take m xs # Split (drop (Suc m) xs) [c]"
          using Some by (subst Split.simps) simp
        ultimately show ?thesis using False Cons ih by simp
      qed
    qed
  qed
qed

lemma capitalizeLoop_map:
  "i \<le> length words \<Longrightarrow>
   capitalizeLoop words i = Inr (take i words @ map capitalize (drop i words))"
proof (induction words i rule: capitalizeLoop.induct)
  case (1 words i)
  show ?case
  proof (cases "i < length words")
    case False
    then have "capitalizeLoop words i = Inr words"
      by (subst capitalizeLoop.simps) simp
    with False "1.prems" show ?thesis by simp
  next
    case True
    then have d: "drop i words = words ! i # drop (Suc i) words"
      by (simp add: Cons_nth_drop_Suc)
    show ?thesis
    proof (cases "words ! i = []")
      case empty: True
      then have "capitalizeLoop words i = capitalizeLoop words (Suc i)"
        using True by (subst capitalizeLoop.simps) simp
      moreover have "capitalizeLoop words (Suc i) =
          Inr (take (Suc i) words @ map capitalize (drop (Suc i) words))"
        using True empty by (intro "1.IH"(2)) simp_all
      moreover have "take (Suc i) words = take i words @ [words ! i]"
        using True by (simp add: take_Suc_conv_app_nth)
      ultimately show ?thesis
        using d empty by (simp add: capitalize_def)
    next
      case False
      let ?w = "words ! i"
      let ?ws = "words[i := ToUpper (take 1 ?w) @ drop 1 ?w]"
      have len: "Suc 0 \<le> length ?w" using False by (cases ?w) simp_all
      have "capitalizeLoop words i = capitalizeLoop ?ws (Suc i)"
        using True False len
        by (subst capitalizeLoop.simps) (simp add: slice_to_def slice_from_def Let_def)
      moreover have "capitalizeLoop ?ws (Suc i) =
          Inr (take (Suc i) ?ws @ map capitalize (drop (Suc i) ?ws))"
        using True False len
        by (intro "1.IH"(1) [of ?w "take 1 ?w" "drop 1 ?w"])
           (simp_all add: slice_to_def slice_from_def)
      moreover have "take (Suc i) ?ws = take i words @ [capitalize ?w]"
        using True False by (simp add: take_Suc_conv_app_nth capitalize_def)
      moreover have "drop (Suc i) ?ws = drop (Suc i) words"
        by simp
      ultimately show ?thesis
        using d by simp
    qed
  qed
qed

lemma formatDirName_Join:
  "formatDirName name = Inr (Join (map capitalize (split_on (CHR ''-'') name)) '' '')"
  by (simp add: formatDirName_def capitalizeLoop_map Split_single)

lemma capitalize_ascii: "byte_val x < 128 \<Longrightarrow> capitalize (x # xs) = upper_ascii x # xs"
  by (simp add: capitalize_def ToUpper_def)

lemma capitalize_non_ascii:
  "\<not> byte_val x < 128 \<Longrightarrow> capitalize (x # xs) = RuneError_utf8 @ xs"
  by (simp add: capitalize_def ToUpper_def)

lemma formatDirName_ascii:
  assumes "\<forall>w \<in> set (Split name ''-''). w \<noteq> [] \<longrightarrow> byte_val (hd w) < 128"
  shows "formatDirName name =
    Inr (Join (map (\<lambda>w. if w = [] then [] else upper_ascii (hd w) # tl w) (Split name ''-'')) '' '')"
proof -
  have "capitalize w = (if w = [] then [] else upper_ascii (hd w) # tl w)"
    if "w \<in> set (Split name ''-'')" for w
  proof (cases w)
    case Nil
    then show ?thesis by (simp add: capitalize_def)
  next
    case (Cons x xs)
    with assms that have "byte_val x < 128" by fastforce
    with Cons show ?thesis by (simp add: capitalize_ascii)
  qed
  then have "map capitalize (Split name ''-'') =
      map (\<lambda>w. if w = [] then [] else upper_ascii (hd w) # tl w) (Split name ''-'')"
    by simp
  moreover have "formatDirName name = Inr (Join (map capitalize (Split name ''-'')) '' '')"
    by (simp add: formatDirName_Join Split_single)
  ultimately show ?thesis
    by (simp only:)
qed

lemma split_on_length: "length (split_on c s) = Suc (length (filter (\<lambda>x. x = c) s))"
  by (induction s) (auto split: list.splits simp: split_on_nonempty)

lemma Join_Cons: "ws \<noteq> [] \<Longrightarrow> Join (w # ws) sep = w @ sep @ Join ws sep"
  by (cases ws) simp_all

lemma Join_split_on: "Join (split_on c s) [c] = s"
proof (induction s)
  case Nil
  then show ?case by simp
next
  case (Cons x xs)
  show ?case
  proof (cases "x = c")
    case True
    with Cons show ?thesis by (simp add: Join_Cons split_on_nonempty)
  next
    case False
    obtain w ws where sp: "split_on c xs = w # ws"
      using split_on_nonempty [of c xs] by (cases "split_on c xs") auto
    with Cons have "Join (w # ws) [c] = xs" by simp
    then have "Join ((x # w) # ws) [c] = x # xs"
      by (cases ws) simp_all
    with False sp show ?thesis by simp
  qed
qed

subsection \<open>The loops of the classifier\<close>

lemma hasNoAttributesLoop_iff:
  "hasNoAttributesLoop attrs excludeAttrs \<longleftrightarrow> (\<forall>a \<in> set attrs. Key a \<notin> set excludeAttrs)"
proof -
  have k: "keyExcluded a es \<longleftrightarrow> Key a \<in> set es" for a es
    by (induction es) auto
  show ?thesis by (induction attrs) (auto simp: k)
qed

lemma hasPhotogimgClass_iff:
  "hasPhotogimgClass attrs \<longleftrightarrow> (\<exists>a \<in> set attrs. Key a = ''class'' \<and> Val a = ''photogimg'')"
  by (induction attrs) auto

lemma isTargetElement_iff:
  "isTargetElement n \<longleftrightarrow>
     Type n = ElementNode \<and>
     (Data n = ''ul'' \<and> (\<forall>a \<in> set (Attr n). Key a \<noteq> ''id'' \<and> Key a \<noteq> ''style'') \<or>
      Data n = ''p'' \<and> (\<forall>a \<in> set (Attr n). Key a \<noteq> ''class'' \<and> Key a \<noteq> ''style'') \<and>
        \<not> Contains (getTextContent n) ''Copyright'' \<or>
      Data n = ''h3'' \<and> (\<forall>a \<in> set (Attr n). Key a \<noteq> ''class'' \<and> Key a \<noteq> ''id'') \<and>
        \<not> Contains (getTextContent n) ''District Map'' \<or>
      (Data n = ''h1'' \<or> Data n = ''h2'') \<and>
        (\<forall>a \<in> set (Attr n). Key a \<noteq> ''class'' \<and> Key a \<noteq> ''id'') \<or>
      Data n = ''div'' \<and> (\<exists>a \<in> set (Attr n). Key a = ''class'' \<and> Val a = ''photogimg''))"
  by (auto simp: isTargetElement_def hasNoAttributes_def hasNoAttributesLoop_iff hasPhotogimgClass_iff)

lemma isTargetElement_classifier_spec:
  "getTextContent n = flattened_text_spec n \<Longrightarrow> isTargetElement n = classifier_spec n"
  by (auto simp: isTargetElement_iff classifier_spec_def no_attribute_keyed_def
      list_all_iff list_ex_iff)

lemma isTargetElement_classifier_spec_other_tags:
  "Data n \<noteq> ''p'' \<Longrightarrow> Data n \<noteq> ''h3'' \<Longrightarrow> isTargetElement n = classifier_spec n"
  by (auto simp: isTargetElement_iff classifier_spec_def no_attribute_keyed_def
      list_all_iff list_ex_iff)

lemmas trim_eval = TrimSpace_def TrimLeft.simps TrimRight.simps leading_space_def
  trailing_space_def space_encodings_def HasPrefix_def HasSuffix_def

subsection \<open>The extractor\<close>

lemma extract_emitted:
  "extract_f renderNode n extracted = extracted @ map (\<lambda>e. renderNode (snd e)) (emitted_at n path)"
  "extract_children renderNode cs extracted =
     extracted @ map (\<lambda>e. renderNode (snd e)) (emitted_children cs path i)"
proof (induction renderNode n extracted and renderNode cs extracted
    arbitrary: path and path i rule: extract_f_extract_children.induct)
  case (1 renderNode t d a cs extracted)
  then show ?case by simp
next
  case (2 renderNode extracted)
  then show ?case by simp
next
  case (3 renderNode c cs extracted)
  have a: "extract_f renderNode c extracted =
      extracted @ map (\<lambda>e. renderNode (snd e)) (emitted_at c (path @ [i]))"
    by (rule "3.IH"(1))
  have b: "extract_children renderNode cs (extract_f renderNode c extracted) =
      extract_f renderNode c extracted @
        map (\<lambda>e. renderNode (snd e)) (emitted_children cs path (Suc i))"
    by (rule "3.IH"(2))
  have "extract_children renderNode (c # cs) extracted =
      extract_children renderNode cs (extract_f renderNode c extracted)"
    by simp
  also note b
  also have "extract_f renderNode c extracted @
        map (\<lambda>e. renderNode (snd e)) (emitted_children cs path (Suc i)) =
      extracted @ map (\<lambda>e. renderNode (snd e)) (emitted_children (c # cs) path i)"
    by (simp add: a)
  finally show ?case .
qed

lemma emitted_sound:
  "(p, m) \<in> set (emitted_at n path) \<Longrightarrow>
     \<exists>r. p = path @ r \<and> node_at n r = Some m \<and> isTargetElement m \<and>
       (\<forall>q. strict_prefix q r \<longrightarrow> (\<exists>k. node_at n q = Some k \<and> \<not> isTargetElement k))"
  "(p, m) \<in> set (emitted_children cs path i) \<Longrightarrow>
     \<exists>j r. j < length cs \<and> p = path @ (i + j) # r \<and> node_at (cs ! j) r = Some m \<and>
       isTargetElement m \<and>
       (\<forall>q. strict_prefix q r \<longrightarrow> (\<exists>k. node_at (cs ! j) q = Some k \<and> \<not> isTargetElement k))"
proof (induction n path and cs path i arbitrary: p m and p m rule: emitted_at_emitted_children.induct)
  case (1 t d a cs path)
  show ?case
  proof (cases "isTargetElement (Node t d a cs)")
    case True
    with "1.prems" have "p = path" "m = Node t d a cs" by simp_all
    with True show ?thesis by (intro exI [of _ "[]"]) simp
  next
    case False
    with "1.prems" have "(p, m) \<in> set (emitted_children cs path 0)" by simp
    with False "1.IH" obtain j r where
      j: "j < length cs" "p = path @ j # r" "node_at (cs ! j) r = Some m" "isTargetElement m"
      and anc: "\<forall>q. strict_prefix q r \<longrightarrow> (\<exists>k. node_at (cs ! j) q = Some k \<and> \<not> isTargetElement k)"
      by force
    have "\<exists>k. node_at (Node t d a cs) q = Some k \<and> \<not> isTargetElement k"
      if "strict_prefix q (j # r)" for q
    proof (cases q)
      case Nil
      with False show ?thesis by simp
    next
      case (Cons x q')
      with that have "x = j" "strict_prefix q' r" by simp_all
      with anc j(1) Cons show ?thesis by simp
    qed
    with j show ?thesis by (intro exI [of _ "j # r"]) simp
  qed
next
  case (2 path i)
  then show ?case by simp
next
  case (3 c cs path i)
  from "3.prems" consider
    (head) "(p, m) \<in> set (emitted_at c (path @ [i]))" |
    (tail) "(p, m) \<in> set (emitted_children cs path (Suc i))"
    by auto
  then show ?case
  proof cases
    case head
    from "3.IH"(1) [OF head] obtain r where
      "p = (path @ [i]) @ r" "node_at c r = Some m" "isTargetElement m"
      "\<forall>q. strict_prefix q r \<longrightarrow> (\<exists>k. node_at c q = Some k \<and> \<not> isTargetElement k)"
      by blast
    then show ?thesis
      by (intro exI [of _ 0] exI [of _ r]) simp
  next
    case tail
    from "3.IH"(2) [OF tail] obtain j r where
      "j < length cs" "p = path @ (Suc i + j) # r" "node_at (cs ! j) r = Some m" "isTargetElement m"
      "\<forall>q. strict_prefix q r \<longrightarrow> (\<exists>k. node_at (cs ! j) q = Some k \<and> \<not> isTargetElement k)"
      by blast
    then show ?thesis
      by (intro exI [of _ "Suc j"] exI [of _ r]) simp
  qed
qed

lemma emitted_children_nth:
  "j < length cs \<Longrightarrow> set (emitted_at (cs ! j) (path @ [i + j])) \<subseteq> set (emitted_children cs path i)"
proof (induction cs arbitrary: i j)
  case Nil
  then show ?case by simp
next
  case (Cons c cs)
  show ?case
  proof (cases j)
    case 0
    then show ?thesis by simp
  next
    case (Suc j')
    with Cons.prems have "j' < length cs" by simp
    then have "set (emitted_at (cs ! j') (path @ [Suc i + j'])) \<subseteq> set (emitted_children cs path (Suc i))"
      by (rule Cons.IH)
    with Suc show ?thesis by auto
  qed
qed

lemma emitted_complete:
  "node_at n r = Some m \<Longrightarrow> isTargetElement m \<Longrightarrow>
   (\<forall>q. strict_prefix q r \<longrightarrow> (\<exists>k. node_at n q = Some k \<and> \<not> isTargetElement k)) \<Longrightarrow>
   (path @ r, m) \<in> set (emitted_at n path)"
proof (induction r arbitrary: n path)
  case Nil
  obtain t d a cs where n: "n = Node t d a cs" by (cases n)
  from Nil have "m = n" "isTargetElement n" by simp_all
  then show ?case unfolding n by simp
next
  case (Cons j r)
  obtain t d a cs where n: "n = Node t d a cs" by (cases n)
  have "strict_prefix [] (j # r)" by simp
  with Cons.prems(3) have "\<exists>k. node_at n [] = Some k \<and> \<not> isTargetElement k"
    by blast
  then have rej: "\<not> isTargetElement n" by simp
  from Cons.prems(1) n have j: "j < length cs" and at: "node_at (cs ! j) r = Some m"
    by (simp_all split: if_splits)
  have anc: "\<forall>q. strict_prefix q r \<longrightarrow> (\<exists>k. node_at (cs ! j) q = Some k \<and> \<not> isTargetElement k)"
  proof (intro allI impI)
    fix q assume "strict_prefix q r"
    then have "strict_prefix (j # q) (j # r)" by simp
    with Cons.prems(3) obtain k where "node_at n (j # q) = Some k" "\<not> isTargetElement k"
      by blast
    with n j show "\<exists>k. node_at (cs ! j) q = Some k \<and> \<not> isTargetElement k" by simp
  qed
  have "((path @ [j]) @ r, m) \<in> set (emitted_at (cs ! j) (path @ [j]))"
    using at Cons.prems(2) anc by (rule Cons.IH)
  moreover have "set (emitted_at (cs ! j) (path @ [0 + j])) \<subseteq> set (emitted_children cs path 0)"
    using j by (rule emitted_children_nth)
  ultimately have "(path @ j # r, m) \<in> set (emitted_children cs path 0)" by auto
  with rej n show ?case by simp
qed

lemma doc_before_append: "doc_before (path @ p) (path @ q) = doc_before p q"
  by (induction path) simp_all

lemma emitted_sorted:
  "sorted_wrt doc_before (map fst (emitted_at n path))"
  "sorted_wrt doc_before (map fst (emitted_children cs path i))"
proof (induction n path and cs path i rule: emitted_at_emitted_children.induct)
  case (1 t d a cs path)
  then show ?case by simp
next
  case (2 path i)
  then show ?case by simp
next
  case (3 c cs path i)
  have "doc_before p q"
    if "p \<in> fst ` set (emitted_at c (path @ [i]))"
      and "q \<in> fst ` set (emitted_children cs path (Suc i))" for p q
  proof -
    from that(1) obtain m where "(p, m) \<in> set (emitted_at c (path @ [i]))" by auto
    then obtain r where p: "p = path @ i # r"
      by (auto dest: emitted_sound(1))
    from that(2) obtain k where "(q, k) \<in> set (emitted_children cs path (Suc i))" by auto
    then obtain j r' where q: "q = path @ (Suc i + j) # r'"
      by (auto dest: emitted_sound(2))
    show ?thesis unfolding p q by (simp add: doc_before_append)
  qed
  with 3 show ?case by (auto simp: sorted_wrt_append)
qed

subsection \<open>Prefixes, occurrences and replacement\<close>

lemma HasPrefix_Nil [simp]: "HasPrefix s []"
  by (simp add: HasPrefix_def)

lemma HasPrefix_Cons_Cons [simp]: "HasPrefix (c # t) (x # w) \<longleftrightarrow> c = x \<and> HasPrefix t w"
  by (auto simp: HasPrefix_def)

lemma HasPrefix_Nil_Cons [simp]: "\<not> HasPrefix [] (x # w)"
  by (simp add: HasPrefix_def)

lemma HasPrefix_append [simp]: "HasPrefix (w @ u) w"
  by (simp add: HasPrefix_def)

lemma HasPrefix_iff: "HasPrefix s w \<longleftrightarrow> (\<exists>u. s = w @ u)"
  by (metis HasPrefix_def append_eq_conv_conj append_take_drop_id)

lemma Contains_Cons: "Contains (c # t) sub \<longleftrightarrow> HasPrefix (c # t) sub \<or> Contains t sub"
  by (simp add: Contains_def)

lemma Contains_drop: "Contains (drop n s) sub \<Longrightarrow> sub \<noteq> [] \<Longrightarrow> Contains s sub"
proof (induction s arbitrary: n)
  case Nil
  then show ?case by simp
next
  case (Cons c t)
  then show ?case by (cases n) (auto simp: Contains_Cons)
qed

lemma Contains_append: "Contains u sub \<Longrightarrow> sub \<noteq> [] \<Longrightarrow> Contains (w @ u) sub"
  using Contains_drop [of "length w" "w @ u" sub] by simp

lemma ReplaceAll_Nil: "old \<noteq> [] \<Longrightarrow> ReplaceAll [] old new = []"
  by (subst ReplaceAll.simps) simp

lemma ReplaceAll_hit:
  "old \<noteq> [] \<Longrightarrow> ReplaceAll (old @ u) old new = new @ ReplaceAll u old new"
  by (subst ReplaceAll.simps) simp

lemma ReplaceAll_miss:
  "old \<noteq> [] \<Longrightarrow> \<not> HasPrefix (c # t) old \<Longrightarrow>
   ReplaceAll (c # t) old new = c # ReplaceAll t old new"
  by (subst ReplaceAll.simps) simp

lemma ReplaceAll_other_head:
  "c \<noteq> x \<Longrightarrow> ReplaceAll (c # t) (x # old) new = c # ReplaceAll t (x # old) new"
  by (simp add: ReplaceAll_miss)

lemma ReplaceAll_skip:
  "x \<notin> set w \<Longrightarrow> ReplaceAll (w @ u) (x # old) new = w @ ReplaceAll u (x # old) new"
  by (induction w) (auto simp: ReplaceAll_other_head)

lemma ReplaceAll_head:
  assumes "ReplaceAll t (x # old) (y # new) = c # r" and "c \<noteq> y"
  shows "\<exists>t'. t = c # t' \<and> r = ReplaceAll t' (x # old) (y # new) \<and> \<not> HasPrefix t (x # old)"
proof (cases t)
  case Nil
  with assms show ?thesis by (simp add: ReplaceAll_Nil)
next
  case (Cons c' t')
  show ?thesis
  proof (cases "HasPrefix t (x # old)")
    case True
    then obtain u where "t = (x # old) @ u" by (auto simp: HasPrefix_iff)
    then have "ReplaceAll t (x # old) (y # new) = (y # new) @ ReplaceAll u (x # old) (y # new)"
      by (simp only: ReplaceAll_hit [of "x # old" u "y # new"] list.distinct simp_thms)
    with assms show ?thesis by simp
  next
    case False
    with Cons have "ReplaceAll t (x # old) (y # new) = c' # ReplaceAll t' (x # old) (y # new)"
      by (simp add: ReplaceAll_miss)
    with assms Cons False show ?thesis by simp
  qed
qed

lemma ReplaceAll_prefix:
  "y \<notin> set w \<Longrightarrow> HasPrefix (ReplaceAll t (x # old) (y # new)) w \<Longrightarrow> HasPrefix t w"
proof (induction w arbitrary: t)
  case Nil
  then show ?case by simp
next
  case (Cons c w)
  from Cons.prems(2) obtain r where r: "ReplaceAll t (x # old) (y # new) = c # r" "HasPrefix r w"
    by (cases "ReplaceAll t (x # old) (y # new)") auto
  moreover from Cons.prems(1) have "c \<noteq> y" by auto
  ultimately obtain t' where t': "t = c # t'" "r = ReplaceAll t' (x # old) (y # new)"
    using ReplaceAll_head [of t x old y new c r] by blast
  with r(2) Cons.prems(1) Cons.IH [of t'] have "HasPrefix t' w" by simp
  with t' show ?case by simp
qed

lemma rewrites_commute_aux:
  "\<not> Contains s ''(../index.html)'' \<Longrightarrow>
   ReplaceAll (ReplaceAll s ''(../'' ''('') ''/index.html)'' '')'' =
   ReplaceAll (ReplaceAll s ''/index.html)'' '')'') ''(../'' ''(''"
proof (induction s rule: length_induct)
  case (1 s)
  let ?A = "''(../''" and ?B = "''/index.html)''"
  let ?RA = "\<lambda>s. ReplaceAll s ?A ''(''" and ?RB = "\<lambda>s. ReplaceAll s ?B '')''"
  have IH: "?RB (?RA u) = ?RA (?RB u)"
    if "length u < length s" "\<not> Contains u ''(../index.html)''" for u
    using 1 that by blast
  show ?case
  proof (cases s)
    case Nil
    then show ?thesis by (simp add: ReplaceAll_Nil)
  next
    case (Cons c t)
    have nt: "\<not> Contains t ''(../index.html)''"
      using "1.prems" Cons by (simp add: Contains_Cons)
    consider (A) "HasPrefix s ?A" | (B) "HasPrefix s ?B" | (none) "\<not> HasPrefix s ?A" "\<not> HasPrefix s ?B"
      by blast
    then show ?thesis
    proof cases
      case A
      then obtain u where s: "s = ?A @ u" by (auto simp: HasPrefix_iff)
      have nu: "\<not> Contains u ''(../index.html)''"
        using "1.prems" Contains_append [of u "''(../index.html)''" ?A] s by auto
      have "\<not> HasPrefix s ''(../index.html)''"
        using "1.prems" Cons by (simp add: Contains_Cons)
      then have miss: "\<not> HasPrefix (CHR ''/'' # u) ?B"
        unfolding s by simp
      have "?RA s = CHR ''('' # ?RA u"
        unfolding s using ReplaceAll_hit [of ?A u "''(''"] by simp
      then have l: "?RB (?RA s) = CHR ''('' # ?RB (?RA u)"
        by (simp add: ReplaceAll_other_head)
      have "?RB s = ''(..'' @ ?RB (CHR ''/'' # u)"
        unfolding s using ReplaceAll_skip [of "CHR ''/''" "''(..''" "CHR ''/'' # u"] by simp
      also have "?RB (CHR ''/'' # u) = CHR ''/'' # ?RB u"
        using miss by (simp add: ReplaceAll_miss)
      finally have "?RB s = ?A @ ?RB u" by simp
      then have "?RA (?RB s) = CHR ''('' # ?RA (?RB u)"
        using ReplaceAll_hit [of ?A "?RB u" "''(''"] by simp
      moreover have "?RB (?RA u) = ?RA (?RB u)"
        using nu by (intro IH) (simp add: s)
      ultimately show ?thesis using l by simp
    next
      case B
      then obtain u where s: "s = ?B @ u" by (auto simp: HasPrefix_iff)
      have nu: "\<not> Contains u ''(../index.html)''"
        using "1.prems" Contains_append [of u "''(../index.html)''" ?B] s by auto
      have "?RB s = CHR '')'' # ?RB u"
        unfolding s using ReplaceAll_hit [of ?B u "'')''"] by simp
      then have r: "?RA (?RB s) = CHR '')'' # ?RA (?RB u)"
        by (simp add: ReplaceAll_other_head)
      have "?RA s = ?B @ ?RA u"
        unfolding s using ReplaceAll_skip [of "CHR ''(''" ?B u] by simp
      then have "?RB (?RA s) = CHR '')'' # ?RB (?RA u)"
        using ReplaceAll_hit [of ?B "?RA u" "'')''"] by simp
      moreover have "?RB (?RA u) = ?RA (?RB u)"
        using nu by (intro IH) (simp add: s)
      ultimately show ?thesis using r by simp
    next
      case none
      have a: "?RA s = c # ?RA t" and b: "?RB s = c # ?RB t"
        using none Cons by (simp_all add: ReplaceAll_miss)
      have "\<not> HasPrefix (c # ?RA t) ?B"
      proof
        assume h: "HasPrefix (c # ?RA t) ?B"
        then have "c = CHR ''/''" and "HasPrefix (?RA t) ''index.html)''" by simp_all
        then have "HasPrefix t ''index.html)''"
          using ReplaceAll_prefix [of "CHR ''(''" "''index.html)''" t "CHR ''(''" "''../''" "[]"]
          by simp
        with \<open>c = CHR ''/''\<close> none(2) Cons show False by simp
      qed
      then have l: "?RB (?RA s) = c # ?RB (?RA t)"
        unfolding a by (simp add: ReplaceAll_miss)
      have "\<not> HasPrefix (c # ?RB t) ?A"
      proof
        assume h: "HasPrefix (c # ?RB t) ?A"
        then have "c = CHR ''(''" and "HasPrefix (?RB t) ''../''" by simp_all
        then have "HasPrefix t ''../''"
          using ReplaceAll_prefix [of "CHR '')''" "''../''" t "CHR ''/''" "''index.html)''" "[]"]
          by simp
        with \<open>c = CHR ''(''\<close> none(1) Cons show False by simp
      qed
      then have r: "?RA (?RB s) = c # ?RA (?RB t)"
        unfolding b by (simp add: ReplaceAll_miss)
      have "?RB (?RA t) = ?RA (?RB t)"
        using nt by (intro IH) (simp add: Cons)
      with l r show ?thesis by simp
    qed
  qed
qed

subsection \<open>The loop over the lines\<close>

lemma filterLines_filter:
  "filterLines lines filteredLines =
     filteredLines @ map rewriteLinks (filter (\<lambda>line. \<not> HasPrefix (TrimSpace line) '':::'') lines)"
  by (induction lines arbitrary: filteredLines) simp_all

section \<open>The claims of the specification\<close>

subsection \<open>Brace-span stripping\<close>

text \<open>
  Claim C1, as the specification states it: a \<open>{\<close> with no \<open>}\<close> after it is dropped with
  everything after it, so that \<open>"a{bc"\<close> gives \<open>"a"\<close>. The loop writes nothing only when the
  inner search stops inside the text (\<open>if j < len(mdText)\<close>); when no \<open>}\<close> follows, the
  search runs to the end, the test fails and \<open>result.WriteByte(mdText[i])\<close> writes the
  \<open>{\<close>. On \<open>"a{bc"\<close> the pass returns \<open>"a{bc"\<close>.
\<close>

theorem unterminated_brace_dropped_counterexample:
  "stripBraces ''a{bc'' = Inr ''a{bc'' \<and> stripBraces ''a{bc'' \<noteq> Inr ''a''"
  by (simp add: stripBraces_def stripLoop_strip_spans)

text \<open>
  Claim C1, amended: when no \<open>}\<close> stands after a \<open>{\<close>, that \<open>{\<close> and everything after it
  up to the end of the input is copied to the output unchanged, after the output for the
  text before it.
\<close>

theorem unterminated_brace_kept:
  "CHR ''}'' \<notin> set rest \<Longrightarrow>
   (\<exists>out. stripBraces pre = Inr out \<and>
      stripBraces (pre @ CHR ''{'' # rest) = Inr (out @ CHR ''{'' # rest))"
proof -
  assume "CHR ''}'' \<notin> set rest"
  then have "CHR ''}'' \<notin> set (CHR ''{'' # rest)" by simp
  then have "strip_spans (pre @ CHR ''{'' # rest) = strip_spans pre @ CHR ''{'' # rest"
    by (rule strip_spans_unterminated)
  then show ?thesis
    by (simp add: stripBraces_def stripLoop_strip_spans)
qed

theorem unterminated_brace_kept_witness:
  "CHR ''}'' \<notin> set ''bc'' \<and> stripBraces ''a{bc'' = Inr ''a{bc''"
proof -
  have h: "CHR ''}'' \<notin> set ''bc''" by simp
  have "stripBraces ''a'' = Inr ''a''"
    by (simp add: stripBraces_def stripLoop_strip_spans)
  with unterminated_brace_kept [OF h, of "''a''"] h show ?thesis by simp
qed

text \<open>
  Claim C5: the pass never fails; text without \<open>{\<close> is copied unchanged; a span from a
  \<open>{\<close> through the first \<open>}\<close> after it (whatever stands between them, further \<open>{\<close>
  included) is left out, the text before it is copied and the text after it is processed
  in turn; \<open>"a{b}c"\<close> gives \<open>"ac"\<close>, \<open>"a{b}{c}d"\<close> gives \<open>"ad"\<close> and \<open>"a{b{c}d}e"\<close> gives
  \<open>"ad}e"\<close>.
\<close>

theorem brace_span_skipped:
  "(\<exists>out. stripBraces s = Inr out) \<and>
   (CHR ''{'' \<notin> set s \<longrightarrow> stripBraces s = Inr s) \<and>
   (CHR ''{'' \<notin> set pre \<and> CHR ''}'' \<notin> set mid \<longrightarrow>
      (\<exists>out. stripBraces rest = Inr out \<and>
         stripBraces (pre @ CHR ''{'' # mid @ CHR ''}'' # rest) = Inr (pre @ out))) \<and>
   stripBraces ''a{b}c'' = Inr ''ac'' \<and>
   stripBraces ''a{b}{c}d'' = Inr ''ad'' \<and>
   stripBraces ''a{b{c}d}e'' = Inr ''ad}e''"
proof -
  have run: "stripBraces t = Inr (strip_spans t)" for t
    by (simp add: stripBraces_def stripLoop_strip_spans)
  have "stripBraces (pre @ CHR ''{'' # mid @ CHR ''}'' # rest) = Inr (pre @ strip_spans rest)"
    if "CHR ''{'' \<notin> set pre" and "CHR ''}'' \<notin> set mid"
    using that by (simp add: run strip_spans_copy strip_spans_span del: strip_spans.simps)
  moreover have "stripBraces ''a{b}c'' = Inr ''ac''" by (simp add: run)
  moreover have "stripBraces ''a{b}{c}d'' = Inr ''ad''" by (simp add: run)
  moreover have "stripBraces ''a{b{c}d}e'' = Inr ''ad}e''" by (simp add: run)
  ultimately show ?thesis
    by (simp add: run strip_spans_no_open)
qed

theorem brace_span_skipped_witness:
  "stripBraces ''no braces'' = Inr ''no braces'' \<and>
   stripBraces ''x{y{z}w}v'' = Inr ''xw}v''"
proof -
  have "stripBraces ''w}v'' = Inr ''w}v''"
    using brace_span_skipped [of "''w}v''"] by simp
  then show ?thesis
    using brace_span_skipped [of "''no braces''" "''x''" "''y{z''" "''w}v''"] by simp
qed

subsection \<open>Title derivation\<close>

text \<open>
  Claim C4, as the specification states it: title derivation on \<open>"tokyo-city-guide"\<close>
  returns \<open>"Tokyo City guide"\<close>. The loop upper-cases the first byte of every non-empty
  segment, the last one too, and the title is not the one the claim gives.
\<close>

theorem title_tokyo_city_guide_counterexample:
  "formatDirName ''tokyo-city-guide'' \<noteq> Inr ''Tokyo City guide''"
  by (simp add: formatDirName_Join capitalize_def ToUpper_def upper_ascii_def byte_val_def
      char_of_eq_iff)

text \<open>
  Claim C4, amended: title derivation on \<open>"tokyo-city-guide"\<close> returns
  \<open>"Tokyo City Guide"\<close>.
\<close>

theorem title_tokyo_city_guide:
  "formatDirName ''tokyo-city-guide'' = Inr ''Tokyo City Guide''"
  by (simp add: formatDirName_Join capitalize_def ToUpper_def upper_ascii_def byte_val_def
      char_of_eq_iff)

text \<open>
  Claim C9 says that, for every base name, the first character of each non-empty segment
  is upper-cased and the rest of the segment is unchanged. The code upper-cases
  \<open>word[:1]\<close>, the first byte. Take the base name \<open>ile-de-france\<close> spelled with U+00EE
  (\<open>i\<close> with a circumflex, the bytes \<open>C3 AE\<close>) as its first letter, as in a file
  \<open>ile-de-france.html\<close> so spelled. \<open>word[:1]\<close> is the byte \<open>C3\<close> alone, which
  \<open>strings.ToUpper\<close> turns into the replacement character U+FFFD (\<open>EF BF BD\<close>); the byte
  \<open>AE\<close> is left behind it. The first character is destroyed, not upper-cased to U+00CE
  (\<open>C3 8E\<close>), the segment is not otherwise unchanged, and the title is not valid UTF-8.
\<close>

theorem title_first_byte_not_first_character:
  "formatDirName ([CHR 0xC3, CHR 0xAE] @ ''le-de-france'') =
     Inr ([CHR 0xEF, CHR 0xBF, CHR 0xBD, CHR 0xAE] @ ''le De France'') \<and>
   formatDirName ([CHR 0xC3, CHR 0xAE] @ ''le-de-france'') \<noteq>
     Inr ([CHR 0xC3, CHR 0x8E] @ ''le De France'')"
  by (simp add: formatDirName_Join capitalize_def ToUpper_def upper_ascii_def byte_val_def
      RuneError_utf8_def char_of_eq_iff)

subsection \<open>The element classifier\<close>

text \<open>
  Claim C2 says that the flattened text the classifier tests is the concatenation of all
  text-node data of the subtree, trimmed at its two ends only, white space at the
  boundaries of child elements kept. \<open>getTextContent\<close> returns through
  \<open>strings.TrimSpace\<close> at every level of its recursion, so each child's text is trimmed
  before it is appended. For \<open><p>Copy <b>right</b></p>\<close> the text node \<open>"Copy "\<close> gives
  \<open>"Copy"\<close>, the code's flattened text is \<open>"Copyright"\<close> where the specification's is
  \<open>"Copy right"\<close>, and the classifier rejects a paragraph whose text does not contain
  \<open>"Copyright"\<close>. For \<open><h3>Tokyo District <a href="map.html">Map</a></h3>\<close> the code's
  flattened text is \<open>"Tokyo DistrictMap"\<close> where the specification's is
  \<open>"Tokyo District Map"\<close>, and the classifier keeps a heading whose text contains
  \<open>"District Map"\<close>.
\<close>

theorem flattened_text_trims_each_child:
  "getTextContent paragraph_copy_right = ''Copyright'' \<and>
   flattened_text_spec paragraph_copy_right = ''Copy right'' \<and>
   \<not> Contains (flattened_text_spec paragraph_copy_right) ''Copyright'' \<and>
   \<not> isTargetElement paragraph_copy_right \<and>
   getTextContent heading_district_map = ''Tokyo DistrictMap'' \<and>
   flattened_text_spec heading_district_map = ''Tokyo District Map'' \<and>
   Contains (flattened_text_spec heading_district_map) ''District Map'' \<and>
   isTargetElement heading_district_map"
proof -
  have g: "getTextContent paragraph_copy_right = ''Copyright''"
    by (simp add: paragraph_copy_right_def trim_eval)
  have s: "flattened_text_spec paragraph_copy_right = ''Copy right''"
    by (simp add: paragraph_copy_right_def flattened_text_spec_def trim_eval)
  have c: "\<not> Contains ''Copy right'' ''Copyright''"
    by (simp add: Contains_def)
  have "Contains ''Copyright'' ''Copyright''"
    by (simp add: Contains_def)
  then have r: "\<not> isTargetElement paragraph_copy_right"
    using g by (simp add: isTargetElement_def paragraph_copy_right_def)
  have g': "getTextContent heading_district_map = ''Tokyo DistrictMap''"
    by (simp add: heading_district_map_def trim_eval)
  have s': "flattened_text_spec heading_district_map = ''Tokyo District Map''"
    by (simp add: heading_district_map_def flattened_text_spec_def trim_eval)
  have c': "Contains ''Tokyo District Map'' ''District Map''"
    by (simp add: Contains_def)
  have "\<not> Contains ''Tokyo DistrictMap'' ''District Map''"
    by (simp add: Contains_def)
  then have k: "isTargetElement heading_district_map"
    using g' by (simp add: isTargetElement_def hasNoAttributes_def heading_district_map_def)
  from g s c r g' s' c' k show ?thesis by simp
qed

text \<open>
  Claim C6 says that the classifier keeps a node exactly when it is an element and one of
  the five rules holds, where the rules for \<open>p\<close> and \<open>h3\<close> test the flattened text: the
  rules as \<open>classifier_spec\<close> words them. \<open>isTargetElement\<close> tests the text that
  \<open>getTextContent\<close> returns, which has lost the white space at every child boundary
  (claim C2). For \<open><h3>Tokyo District <a href="map.html">Map</a></h3>\<close>, with no
  attribute keyed \<open>class\<close> or \<open>id\<close> and the flattened text \<open>"Tokyo District Map"\<close>, the
  rules reject the heading and the code keeps it, its text being \<open>"Tokyo DistrictMap"\<close>.
  For \<open><p>Copy <b>right</b></p>\<close>, with no attribute at all and the flattened text
  \<open>"Copy right"\<close>, the rules keep the paragraph and the code rejects it, its text being
  \<open>"Copyright"\<close>.
\<close>

theorem classifier_keeps_district_map_heading:
  "isTargetElement heading_district_map \<and>
   \<not> classifier_spec heading_district_map \<and>
   getTextContent heading_district_map = ''Tokyo DistrictMap'' \<and>
   \<not> isTargetElement paragraph_copy_right \<and>
   classifier_spec paragraph_copy_right \<and>
   getTextContent paragraph_copy_right = ''Copyright''"
proof -
  have gh: "getTextContent heading_district_map = ''Tokyo DistrictMap''"
    by (simp add: heading_district_map_def trim_eval)
  have sh: "flattened_text_spec heading_district_map = ''Tokyo District Map''"
    by (simp add: heading_district_map_def flattened_text_spec_def trim_eval)
  have gp: "getTextContent paragraph_copy_right = ''Copyright''"
    by (simp add: paragraph_copy_right_def trim_eval)
  have sp: "flattened_text_spec paragraph_copy_right = ''Copy right''"
    by (simp add: paragraph_copy_right_def flattened_text_spec_def trim_eval)
  have c1: "\<not> Contains ''Tokyo DistrictMap'' ''District Map''"
    and c2: "Contains ''Tokyo District Map'' ''District Map''"
    and c3: "Contains ''Copyright'' ''Copyright''"
    and c4: "\<not> Contains ''Copy right'' ''Copyright''"
    by (simp_all add: Contains_def)
  have "isTargetElement heading_district_map"
    using gh c1 by (simp add: isTargetElement_def hasNoAttributes_def heading_district_map_def)
  moreover have "\<not> classifier_spec heading_district_map"
    using sh c2 by (simp add: classifier_spec_def heading_district_map_def)
  moreover have "\<not> isTargetElement paragraph_copy_right"
    using gp c3 by (simp add: isTargetElement_def paragraph_copy_right_def)
  moreover have "classifier_spec paragraph_copy_right"
    using sp c4
    by (simp add: classifier_spec_def no_attribute_keyed_def paragraph_copy_right_def)
  ultimately show ?thesis using gh gp by simp
qed

subsection \<open>The tree extractor\<close>

text \<open>
  Claim C7: for every document and every rendering function, the fragments are the
  renderings of the emitted nodes in the order emitted; a node of the document is emitted
  exactly when the classifier accepts it and rejects every proper ancestor of it (the
  traversal stops at an accepted node and descends below a rejected one); every emitted
  node is an accepted node of the document; no emitted node is a proper ancestor of
  another emitted node; and the emitted nodes stand in document order.
\<close>

theorem extraction_preorder_independent:
  "extractContent renderNode doc = map (\<lambda>e. renderNode (snd e)) (emitted doc) \<and>
   (\<forall>p m. node_at doc p = Some m \<longrightarrow>
      ((p, m) \<in> set (emitted doc) \<longleftrightarrow>
         isTargetElement m \<and>
         (\<forall>q. strict_prefix q p \<longrightarrow> (\<exists>k. node_at doc q = Some k \<and> \<not> isTargetElement k)))) \<and>
   (\<forall>e \<in> set (emitted doc). node_at doc (fst e) = Some (snd e) \<and> isTargetElement (snd e)) \<and>
   (\<forall>e \<in> set (emitted doc). \<forall>e' \<in> set (emitted doc). \<not> strict_prefix (fst e) (fst e')) \<and>
   sorted_wrt doc_before (map fst (emitted doc))"
proof -
  have sound: "node_at doc p = Some m \<and> isTargetElement m \<and>
      (\<forall>q. strict_prefix q p \<longrightarrow> (\<exists>k. node_at doc q = Some k \<and> \<not> isTargetElement k))"
    if "(p, m) \<in> set (emitted doc)" for p m
    using emitted_sound(1) [of p m doc "[]"] that by (simp add: emitted_def)
  have complete: "(p, m) \<in> set (emitted doc)"
    if "node_at doc p = Some m" "isTargetElement m"
      "\<forall>q. strict_prefix q p \<longrightarrow> (\<exists>k. node_at doc q = Some k \<and> \<not> isTargetElement k)" for p m
    using emitted_complete [OF that, of "[]"] by (simp add: emitted_def)
  have "extractContent renderNode doc = map (\<lambda>e. renderNode (snd e)) (emitted doc)"
    by (simp add: extractContent_def emitted_def extract_emitted(1) [of _ _ _ "[]"])
  moreover have "\<forall>p m. node_at doc p = Some m \<longrightarrow>
      ((p, m) \<in> set (emitted doc) \<longleftrightarrow>
         isTargetElement m \<and>
         (\<forall>q. strict_prefix q p \<longrightarrow> (\<exists>k. node_at doc q = Some k \<and> \<not> isTargetElement k)))"
    using sound complete by blast
  moreover have "\<forall>e \<in> set (emitted doc). node_at doc (fst e) = Some (snd e) \<and> isTargetElement (snd e)"
    using sound by auto
  moreover have "\<forall>e \<in> set (emitted doc). \<forall>e' \<in> set (emitted doc). \<not> strict_prefix (fst e) (fst e')"
  proof (intro ballI notI)
    fix e e' assume e: "e \<in> set (emitted doc)" and e': "e' \<in> set (emitted doc)"
      and pre: "strict_prefix (fst e) (fst e')"
    from e have "node_at doc (fst e) = Some (snd e)" "isTargetElement (snd e)"
      using sound [of "fst e" "snd e"] by simp_all
    moreover from e' pre obtain k where "node_at doc (fst e) = Some k" "\<not> isTargetElement k"
      using sound [of "fst e'" "snd e'"] by auto
    ultimately show False by simp
  qed
  moreover have "sorted_wrt doc_before (map fst (emitted doc))"
    by (simp add: emitted_def emitted_sorted(1))
  ultimately show ?thesis by blast
qed

theorem extraction_preorder_independent_witness:
  "extractContent Data example_document = [''div'', ''h1''] \<and>
   map fst (emitted example_document) = [[0, 1, 0], [0, 1, 1]]"
proof -
  have e: "map fst (emitted example_document) = [[0, 1, 0], [0, 1, 1]]"
    "map (\<lambda>e. Data (snd e)) (emitted example_document) = [''div'', ''h1'']"
    by (simp_all add: emitted_def example_document_def isTargetElement_def hasNoAttributes_def)
  with extraction_preorder_independent [of Data example_document] show ?thesis
    by simp
qed

subsection \<open>Link rewriting\<close>

text \<open>
  Claim C3, as the specification states it: on every line the two replacements give the
  same result in either order. The patterns overlap in \<open>(../index.html)\<close>: the \<open>/\<close> that
  ends \<open>(../\<close> is the \<open>/\<close> that starts \<open>/index.html)\<close>. The order of the source gives
  \<open>(index.html)\<close>, the opposite order gives \<open>(..)\<close>.
\<close>

theorem link_rewrites_order_counterexample:
  "rewriteLinks ''(../index.html)'' = ''(index.html)'' \<and>
   rewriteLinks_swapped ''(../index.html)'' = ''(..)'' \<and>
   rewriteLinks ''(../index.html)'' \<noteq> rewriteLinks_swapped ''(../index.html)''"
  by (simp add: rewriteLinks_def rewriteLinks_swapped_def ReplaceAll.simps)

text \<open>
  Claim C3, amended: on every line that does not contain \<open>(../index.html)\<close>, the two
  replacements give the same result in either order.
\<close>

theorem link_rewrites_commute:
  "\<not> Contains line ''(../index.html)'' \<Longrightarrow> rewriteLinks line = rewriteLinks_swapped line"
  unfolding rewriteLinks_def rewriteLinks_swapped_def by (rule rewrites_commute_aux)

theorem link_rewrites_commute_witness:
  "\<not> Contains ''text (../page/index.html)'' ''(../index.html)'' \<and>
   rewriteLinks ''text (../page/index.html)'' = ''text (page)'' \<and>
   rewriteLinks_swapped ''text (../page/index.html)'' = ''text (page)''"
proof -
  have h: "\<not> Contains ''text (../page/index.html)'' ''(../index.html)''"
    by (simp add: Contains_def)
  have "rewriteLinks ''text (../page/index.html)'' = ''text (page)''"
    by (simp add: rewriteLinks_def ReplaceAll.simps)
  with h link_rewrites_commute [OF h] show ?thesis by simp
qed

subsection \<open>Directive lines and the output document\<close>

text \<open>
  Claim C8: the directive-line pass splits the text at newlines, drops every line whose
  trimmed content starts with \<open>:::\<close>, applies the two link rewrites to every other line
  and joins the results with newlines in their order; the single line \<open>"  ::: note"\<close> is
  dropped, also from between two other lines, and \<open>"text (../page/index.html)"\<close> becomes
  \<open>"text (page)"\<close>.
\<close>

theorem directive_lines_dropped:
  "directiveLinePass mdText =
     Join (map rewriteLinks
             (filter (\<lambda>line. \<not> HasPrefix (TrimSpace line) '':::'') (Split mdText newline)))
       newline \<and>
   directiveLinePass ''  ::: note'' = [] \<and>
   directiveLinePass ''text (../page/index.html)'' = ''text (page)'' \<and>
   directiveLinePass (''intro'' @ newline @ ''  ::: note'' @ newline @ ''text (../page/index.html)'') =
     ''intro'' @ newline @ ''text (page)''"
proof -
  have gen: "directiveLinePass t =
      Join (map rewriteLinks
             (filter (\<lambda>line. \<not> HasPrefix (TrimSpace line) '':::'') (Split t newline)))
       newline" for t
    by (simp add: directiveLinePass_def filterLines_filter)
  have d: "HasPrefix (TrimSpace ''  ::: note'') '':::''"
    by (simp add: trim_eval)
  have k1: "\<not> HasPrefix (TrimSpace ''text (../page/index.html)'') '':::''"
    by (simp add: trim_eval)
  have k2: "\<not> HasPrefix (TrimSpace ''intro'') '':::''"
    by (simp add: trim_eval)
  have r1: "rewriteLinks ''text (../page/index.html)'' = ''text (page)''"
    by (simp add: rewriteLinks_def ReplaceAll.simps)
  have r2: "rewriteLinks ''intro'' = ''intro''"
    by (simp add: rewriteLinks_def ReplaceAll.simps)
  have "directiveLinePass ''  ::: note'' = []"
    unfolding gen newline_def Split_single by (simp add: d)
  moreover have "directiveLinePass ''text (../page/index.html)'' = ''text (page)''"
    unfolding gen newline_def Split_single by (simp add: k1 r1)
  moreover have "directiveLinePass
      (''intro'' @ newline @ ''  ::: note'' @ newline @ ''text (../page/index.html)'') =
     ''intro'' @ newline @ ''text (page)''"
    unfolding gen newline_def Split_single by (simp add: d k1 k2 r1 r2)
  ultimately show ?thesis using gen by blast
qed

theorem directive_lines_dropped_witness:
  "directiveLinePass (''a'' @ newline @ '':::b'' @ newline @ ''c'') = ''a'' @ newline @ ''c''"
proof -
  have "Split (''a'' @ newline @ '':::b'' @ newline @ ''c'') newline = [''a'', '':::b'', ''c'']"
    unfolding newline_def Split_single by simp
  moreover have "HasPrefix (TrimSpace '':::b'') '':::''" "\<not> HasPrefix (TrimSpace ''a'') '':::''"
    "\<not> HasPrefix (TrimSpace ''c'') '':::''"
    by (simp_all add: trim_eval)
  moreover have "rewriteLinks ''a'' = ''a''" "rewriteLinks ''c'' = ''c''"
    by (simp_all add: rewriteLinks_def ReplaceAll.simps)
  ultimately show ?thesis
    using directive_lines_dropped [of "''a'' @ newline @ '':::b'' @ newline @ ''c''"]
    by simp
qed

text \<open>
  Claim C10: whatever the base name, the date, the category, the tag and the converted
  text are, title derivation and the three passes succeed and the output is the metadata
  block, with the title, the category and the tag as they are, followed by the body; the
  body is the result of the three passes on the converted text alone.
\<close>

theorem front_matter_untouched:
  "\<exists>title body.
     formatDirName fileNameWithoutExt = Inr title \<and>
     stripBraces (directiveLinePass (ReplaceAll mdContent ''**::**'' [])) = Inr body \<and>
     processedDocument fileNameWithoutExt date category tag mdContent =
       Inr (frontMatter title date category tag @ body)"
  by (simp add: processedDocument_def formatDirName_Join stripBraces_def stripLoop_strip_spans)

theorem front_matter_untouched_witness:
  "processedDocument ''a{b}-c'' ''2026-11-01'' ''{x}:::'' ''(../t/index.html)'' ''p{q}r**::**'' =
     Inr (frontMatter ''A{b} C'' ''2026-11-01'' ''{x}:::'' ''(../t/index.html)'' @ ''pr'')"
proof -
  have "formatDirName ''a{b}-c'' = Inr ''A{b} C''"
    by (simp add: formatDirName_Join capitalize_def ToUpper_def upper_ascii_def byte_val_def
        char_of_eq_iff)
  moreover have "ReplaceAll ''p{q}r**::**'' ''**::**'' [] = ''p{q}r''"
    by (simp add: ReplaceAll.simps)
  moreover have "directiveLinePass ''p{q}r'' = ''p{q}r''"
    by (simp add: directiveLinePass_def newline_def Split_single trim_eval rewriteLinks_def
        ReplaceAll.simps)
  moreover have "stripBraces ''p{q}r'' = Inr ''pr''"
    by (simp add: stripBraces_def stripLoop_strip_spans)
  ultimately show ?thesis
    using front_matter_untouched
      [of "''a{b}-c''" "''p{q}r**::**''" "''2026-11-01''" "''{x}:::''" "''(../t/index.html)''"]
    by auto
qed

end
